theory Spec2Isabelle
  imports Complex_Main
begin

section \<open>Python string primitives used by the pipeline\<close>

text \<open>
  Strings are lists of \<^typ>\<open>char\<close>, read as code points below 256. \<open>is_space\<close> is
  Python's \<^verbatim>\<open>str.isspace\<close> on that range: the characters that \<^verbatim>\<open>str.split()\<close>
  and \<^verbatim>\<open>str.strip()\<close> treat as whitespace.
\<close>

definition is_space :: "char \<Rightarrow> bool" where
  "is_space c = (let n = (of_char c :: nat) in
     (9 \<le> n \<and> n \<le> 13) \<or> (28 \<le> n \<and> n \<le> 32) \<or> n = 133 \<or> n = 160)"

text \<open>\<^verbatim>\<open>text.split()\<close>: the maximal runs of non-whitespace characters, in order.
  \<open>cur\<close> is the token being read.\<close>

fun split_acc :: "string \<Rightarrow> string \<Rightarrow> string list" where
  "split_acc cur [] = (if cur = [] then [] else [cur])"
| "split_acc cur (c # cs) =
     (if is_space c then (if cur = [] then split_acc [] cs else cur # split_acc [] cs)
      else split_acc (cur @ [c]) cs)"

definition py_split :: "string \<Rightarrow> string list" where
  "py_split s = split_acc [] s"

text \<open>\<^verbatim>\<open>sep.join(ws)\<close>, and \<^verbatim>\<open>" ".join(ws)\<close> as its instance.\<close>

fun join_with :: "string \<Rightarrow> string list \<Rightarrow> string" where
  "join_with sep [] = []"
| "join_with sep [w] = w"
| "join_with sep (w # v # ws) = w @ sep @ join_with sep (v # ws)"

definition join_sp :: "string list \<Rightarrow> string" where
  "join_sp ws = join_with '' '' ws"

text \<open>\<^verbatim>\<open>xs[start:end]\<close> for arbitrary integers: a negative index counts from the end,
  and both indices are clamped to the list.\<close>

definition clamp_index :: "int \<Rightarrow> int \<Rightarrow> int" where
  "clamp_index n i = (if i < 0 then max 0 (n + i) else min i n)"

definition py_slice :: "'a list \<Rightarrow> int \<Rightarrow> int \<Rightarrow> 'a list" where
  "py_slice xs start end =
     (let n = int (length xs); s = clamp_index n start; e = clamp_index n end
      in take (nat (e - s)) (drop (nat s) xs))"

text \<open>\<^verbatim>\<open>s.strip()\<close>, \<^verbatim>\<open>s.lower()\<close>, \<^verbatim>\<open>s.startswith(p)\<close> and \<^verbatim>\<open>s.split("\n")\<close>.\<close>

definition py_strip :: "string \<Rightarrow> string" where
  "py_strip s = rev (dropWhile is_space (rev (dropWhile is_space s)))"

definition lower_char :: "char \<Rightarrow> char" where
  "lower_char c = (let n = (of_char c :: nat) in
     if (65 \<le> n \<and> n \<le> 90) \<or> (192 \<le> n \<and> n \<le> 214) \<or> (216 \<le> n \<and> n \<le> 222)
     then char_of (n + 32) else c)"

definition py_lower :: "string \<Rightarrow> string" where
  "py_lower s = map lower_char s"

definition startswith :: "string \<Rightarrow> string \<Rightarrow> bool" where
  "startswith s p = (take (length p) s = p)"

primrec split_on :: "char \<Rightarrow> string \<Rightarrow> string list" where
  "split_on sep [] = [[]]"
| "split_on sep (c # cs) =
     (if c = sep then [] # split_on sep cs
      else (c # hd (split_on sep cs)) # tl (split_on sep cs))"

definition newline :: char where
  "newline = CHR 0x0A"

section \<open>Segmenter: \<^verbatim>\<open>chunk_text_with_overlap\<close> (qna_pair_generate.py)\<close>

text \<open>
  The \<^verbatim>\<open>while start < len(words)\<close> loop. Its arguments are Python integers, so the
  step \<open>chunk_size - overlap\<close> may be zero or negative, and then the loop never leaves:
  the function is partial, and not returning is the value \<open>None\<close>.
\<close>

partial_function (option) chunk_loop ::
  "string list \<Rightarrow> int \<Rightarrow> int \<Rightarrow> int \<Rightarrow> string list \<Rightarrow> string list option" where
  "chunk_loop words chunk_size overlap start chunks =
     (if start < int (length words) then
        (let end = min (start + chunk_size) (int (length words)) in
         chunk_loop words chunk_size overlap (start + (chunk_size - overlap))
           (chunks @ [join_sp (py_slice words start end)]))
      else Some chunks)"

declare chunk_loop.simps [code]

definition chunk_text_with_overlap :: "string \<Rightarrow> int \<Rightarrow> int \<Rightarrow> string list option" where
  "chunk_text_with_overlap text chunk_size overlap =
     chunk_loop (py_split text) chunk_size overlap 0 []"

text \<open>The vocabulary of the specification's segmentation properties: the number of chunks
  it states, and the trailing and leading tokens of a chunk.\<close>

definition spec_chunk_count :: "int \<Rightarrow> int \<Rightarrow> int \<Rightarrow> int" where
  "spec_chunk_count T C V =
     (if T > V then \<lceil>real_of_int (T - V) / real_of_int (C - V)\<rceil> else 1)"

definition trailing :: "nat \<Rightarrow> 'a list \<Rightarrow> 'a list" where
  "trailing n xs = drop (length xs - n) xs"

definition leading :: "nat \<Rightarrow> 'a list \<Rightarrow> 'a list" where
  "leading n xs = take n xs"

definition good_token :: "string \<Rightarrow> bool" where
  "good_token w = (w \<noteq> [] \<and> \<not> list_ex is_space w)"

section \<open>QA generation: \<^verbatim>\<open>generate_qa_from_chunk\<close>\<close>

record message =
  role :: string
  content :: string

record qa_record =
  messages :: "message list"

definition qa_system_prompt :: string where
  "qa_system_prompt =
     ''You are a helpful assistant that answers questions about Saud'' @ [CHR 0x27] @
     ''s resume and GitHub projects.''"

definition make_qa :: "string \<Rightarrow> string \<Rightarrow> qa_record" where
  "make_qa current_q current_a = \<lparr>messages =
     [\<lparr>role = ''system'', content = qa_system_prompt\<rparr>,
      \<lparr>role = ''user'', content = current_q\<rparr>,
      \<lparr>role = ''assistant'', content = current_a\<rparr>]\<rparr>"

text \<open>
  One iteration of the line loop. The state is \<open>(current_q, qa_list)\<close>; \<open>current_q\<close> is
  \<open>None\<close> or a string, and the test \<^verbatim>\<open>and current_q\<close> fails on \<open>None\<close> and on the
  empty string.
\<close>

fun parse_line :: "string option \<times> qa_record list \<Rightarrow> string \<Rightarrow> string option \<times> qa_record list" where
  "parse_line (current_q, qa_list) line =
     (if startswith line ''Q:'' then (Some (py_strip (drop 2 line)), qa_list)
      else if startswith line ''A:'' then
        (case current_q of
           None \<Rightarrow> (current_q, qa_list)
         | Some q \<Rightarrow>
             if q = [] then (current_q, qa_list)
             else (None, qa_list @ [make_qa q (py_strip (drop 2 line))]))
      else (current_q, qa_list))"

definition parse_qa_lines :: "string list \<Rightarrow> qa_record list" where
  "parse_qa_lines lines = snd (foldl parse_line (None, []) lines)"

definition content_lines :: "string \<Rightarrow> string list" where
  "content_lines c = split_on newline (py_strip c)"

text \<open>
  The call to the generation service is outside the program; its outcome is the input of
  the model. \<open>ApiException\<close>: \<^verbatim>\<open>client.chat.completions.create\<close> raised, which the
  \<^verbatim>\<open>try\<close> catches. \<open>NoContent\<close>: the call returned a response whose message content is
  \<^verbatim>\<open>None\<close>, so \<^verbatim>\<open>.strip()\<close> raises outside the \<^verbatim>\<open>try\<close>. \<open>Content c\<close>: the text
  that is parsed.
\<close>

datatype llm_outcome = ApiException | NoContent | Content string

datatype exn = AttributeError | FileNotFoundError | InvokeFailure

definition generate_qa_from_chunk :: "llm_outcome \<Rightarrow> exn + qa_record list" where
  "generate_qa_from_chunk outcome =
     (case outcome of
        ApiException \<Rightarrow> Inr []
      | NoContent \<Rightarrow> Inl AttributeError
      | Content c \<Rightarrow> Inr (parse_qa_lines (content_lines c)))"

section \<open>Aggregation: \<^verbatim>\<open>process_chunks_parallel\<close>\<close>

definition user_msg :: "qa_record \<Rightarrow> string" where
  "user_msg qa =
     py_lower (py_strip
       (case find (\<lambda>m. role m = ''user'') (messages qa) of
          Some m \<Rightarrow> content m
        | None \<Rightarrow> []))"

record agg_state =
  all_qa :: "qa_record list"
  seen_questions :: "string set"
  error_chunks :: "nat list"

definition add_qa :: "agg_state \<Rightarrow> qa_record \<Rightarrow> agg_state" where
  "add_qa st qa =
     (if user_msg qa \<noteq> [] \<and> user_msg qa \<notin> seen_questions st
      then st\<lparr>all_qa := all_qa st @ [qa],
              seen_questions := insert (user_msg qa) (seen_questions st)\<rparr>
      else st)"

text \<open>
  \<^verbatim>\<open>as_completed\<close> yields the futures in completion order; a completion is the chunk
  index with the outcome of that chunk's generation call. An exception of
  \<^verbatim>\<open>future.result()\<close> is caught and printed with the chunk index (\<open>error_chunks\<close>).
\<close>

fun completion_step :: "agg_state \<Rightarrow> nat \<times> llm_outcome \<Rightarrow> agg_state" where
  "completion_step st (idx, outcome) =
     (case generate_qa_from_chunk outcome of
        Inl e \<Rightarrow> st\<lparr>error_chunks := error_chunks st @ [idx]\<rparr>
      | Inr qa_pairs \<Rightarrow> foldl add_qa st qa_pairs)"

definition process_chunks_state :: "(nat \<times> llm_outcome) list \<Rightarrow> agg_state" where
  "process_chunks_state completions =
     foldl completion_step \<lparr>all_qa = [], seen_questions = {}, error_chunks = []\<rparr> completions"

definition process_chunks_parallel :: "(nat \<times> llm_outcome) list \<Rightarrow> qa_record list" where
  "process_chunks_parallel completions = all_qa (process_chunks_state completions)"


definition raises :: "nat \<times> llm_outcome \<Rightarrow> bool" where
  "raises c = (case generate_qa_from_chunk (snd c) of Inl e \<Rightarrow> True | Inr qs \<Rightarrow> False)"

definition payload :: "nat \<times> llm_outcome \<Rightarrow> qa_record list" where
  "payload c = (case generate_qa_from_chunk (snd c) of Inl e \<Rightarrow> [] | Inr qs \<Rightarrow> qs)"

section \<open>QA pipeline: \<^verbatim>\<open>main\<close>\<close>

text \<open>
  \<open>NoTextFound\<close>: the early \<^verbatim>\<open>return\<close>. \<open>Saved chunks qa\<close>: the chunks handed to
  \<^verbatim>\<open>process_chunks_parallel\<close> and the records \<^verbatim>\<open>save_qa_to_jsonl\<close> wrote to the
  output file, one line each. The texts of the files (\<^verbatim>\<open>load_text_from_file\<close> before its
  \<^verbatim>\<open>strip\<close>) and the executor with the generation service behind it are the environment.
\<close>

datatype qa_run = NoTextFound | Saved "string list" "qa_record list"

definition load_text_from_file :: "string \<Rightarrow> string" where
  "load_text_from_file raw = py_strip raw"

definition gather_text :: "string list \<Rightarrow> string" where
  "gather_text raws =
     foldl (\<lambda>all_text raw.
              if load_text_from_file raw \<noteq> [] then all_text @ load_text_from_file raw @ [newline]
              else all_text) [] raws"

definition save_qa_to_jsonl :: "qa_record list \<Rightarrow> qa_record list" where
  "save_qa_to_jsonl qa_list = qa_list"

definition main :: "string list \<Rightarrow> (string list \<Rightarrow> (nat \<times> llm_outcome) list) \<Rightarrow> qa_run option" where
  "main raws executor =
     (let all_text = gather_text raws in
      if py_strip all_text = [] then Some NoTextFound
      else
        (case chunk_text_with_overlap all_text 300 50 of
           None \<Rightarrow> None
         | Some chunks \<Rightarrow>
             Some (Saved chunks (save_qa_to_jsonl (process_chunks_parallel (executor chunks))))))"

section \<open>Summary pipeline (summary.py)\<close>

datatype invoke_outcome = InvokeError | Reply string

text \<open>\<^verbatim>\<open>summarize_chunks_parallel\<close>: the replies in completion order, and the chunk
  numbers (\<open>idx + 1\<close>) printed for the calls that raised.\<close>

fun summarize_step :: "string list \<times> nat list \<Rightarrow> nat \<times> invoke_outcome \<Rightarrow> string list \<times> nat list" where
  "summarize_step (results, errors) (idx, outcome) =
     (case outcome of
        Reply r \<Rightarrow> (results @ [r], errors)
      | InvokeError \<Rightarrow> (results, errors @ [idx + 1]))"

definition summarize_chunks_parallel :: "(nat \<times> invoke_outcome) list \<Rightarrow> string list \<times> nat list" where
  "summarize_chunks_parallel completions = foldl summarize_step ([], []) completions"

definition merge_input :: "string list \<Rightarrow> string" where
  "merge_input partials = join_with [newline, newline] partials"

record summary_run =
  reduce_calls :: "string list"
  saved_summary :: "string option"
  raised :: "exn option"

text \<open>
  \<^verbatim>\<open>run_pipeline\<close>. The environment: the content of the input file if it exists, the
  text splitter of the library, the executor with the service behind it, and the outcome
  of the reduce call for a given input. \<open>reduce_calls\<close> lists the inputs of the calls that
  \<^verbatim>\<open>merge_partial_summaries\<close> made.
\<close>

definition run_pipeline ::
  "string option \<Rightarrow> (string \<Rightarrow> string list) \<Rightarrow> (string list \<Rightarrow> (nat \<times> invoke_outcome) list)
     \<Rightarrow> (string \<Rightarrow> invoke_outcome) \<Rightarrow> summary_run" where
  "run_pipeline input_file split_text executor llm =
     (case input_file of
        None \<Rightarrow> \<lparr>reduce_calls = [], saved_summary = None, raised = Some FileNotFoundError\<rparr>
      | Some text \<Rightarrow>
          (let chunks = split_text text;
               partial_summaries = fst (summarize_chunks_parallel (executor chunks));
               user = merge_input partial_summaries
           in case llm user of
                InvokeError \<Rightarrow>
                  \<lparr>reduce_calls = [user], saved_summary = None, raised = Some InvokeFailure\<rparr>
              | Reply final_summary \<Rightarrow>
                  \<lparr>reduce_calls = [user], saved_summary = Some final_summary, raised = None\<rparr>))"

section \<open>Environments in which every generation call fails\<close>


definition failing_invoker :: "string list \<Rightarrow> (nat \<times> invoke_outcome) list" where
  "failing_invoker chunks = map (\<lambda>i. (i, InvokeError)) [0..<length chunks]"

definition whole_text_splitter :: "string \<Rightarrow> string list" where
  "whole_text_splitter text = (if text = [] then [] else [text])"

definition fixed_llm :: "string \<Rightarrow> invoke_outcome" where
  "fixed_llm user = Reply ''final''"

section \<open>A batch of ten chunks, completed out of order, in which chunk 4 fails\<close>

definition example_completions :: "(nat \<times> llm_outcome) list" where
  "example_completions =
     [(2, Content (''Q: q2'' @ [newline] @ ''A: a2'')),
      (0, Content (''Q: q0'' @ [newline] @ ''A: a0'')),
      (1, Content (''Q: q1'' @ [newline] @ ''A: a1'')),
      (4, NoContent),
      (3, Content (''Q: q3'' @ [newline] @ ''A: a3'')),
      (5, Content (''Q: q5'' @ [newline] @ ''A: a5'')),
      (7, Content (''Q: q7'' @ [newline] @ ''A: a7'')),
      (6, Content (''Q: q6'' @ [newline] @ ''A: a6'')),
      (9, Content (''Q: q9'' @ [newline] @ ''A: a9'')),
      (8, Content (''Q: q8'' @ [newline] @ ''A: a8''))]"

definition example_executor :: "string list \<Rightarrow> (nat \<times> llm_outcome) list" where
  "example_executor chunks = example_completions"



section \<open>Tokens and joining\<close>

lemma is_space_blank: "is_space CHR '' ''"
  by (simp add: is_space_def)

lemma join_sp_simps:
  "join_sp [] = []" "join_sp [w] = w" "join_sp (w # v # ws) = w @ '' '' @ join_sp (v # ws)"
  by (simp_all add: join_sp_def)

lemma split_acc_good:
  "\<not> list_ex is_space cur \<Longrightarrow> list_all good_token (split_acc cur s)"
  by (induction s arbitrary: cur) (auto simp: good_token_def)

lemma py_split_good: "list_all good_token (py_split s)"
  by (simp add: py_split_def split_acc_good)

lemma split_acc_append_token:
  "\<not> list_ex is_space w \<Longrightarrow> split_acc cur (w @ s) = split_acc (cur @ w) s"
  by (induction w arbitrary: cur) auto

lemma split_acc_join:
  "list_all good_token ws \<Longrightarrow> split_acc [] (join_sp ws) = ws"
proof (induction ws rule: induct_list012)
  case 1
  then show ?case by (simp add: join_sp_simps)
next
  case (2 w)
  then show ?case
    using split_acc_append_token [of w "[]" "[]"] by (simp add: good_token_def join_sp_simps)
next
  case (3 w v ws)
  then show ?case
    by (simp add: good_token_def join_sp_simps split_acc_append_token is_space_blank)
qed

lemma py_split_join: "list_all good_token ws \<Longrightarrow> py_split (join_sp ws) = ws"
  by (simp add: py_split_def split_acc_join)

lemma good_take_drop: "list_all good_token ws \<Longrightarrow> list_all good_token (take n (drop m ws))"
  by (meson in_set_dropD in_set_takeD list_all_iff)

lemma good_py_slice: "list_all good_token ws \<Longrightarrow> list_all good_token (py_slice ws a b)"
  by (simp add: py_slice_def Let_def good_take_drop)

section \<open>The chunking loop\<close>

lemma py_slice_window:
  assumes "0 \<le> a" "0 \<le> c"
  shows "py_slice xs a (min (a + c) (int (length xs))) = take (nat c) (drop (nat a) xs)"
proof (cases "a < int (length xs)")
  case True
  have "take (nat (min (a + c) (int (length xs)) - a)) (drop (nat a) xs) =
        take (nat c) (drop (nat a) xs)"
  proof (cases "a + c \<le> int (length xs)")
    case True
    then show ?thesis by (simp add: min_def)
  next
    case False
    then have "length (drop (nat a) xs) \<le> nat (int (length xs) - a)"
      and "length (drop (nat a) xs) \<le> nat c"
      using assms by auto
    then show ?thesis using False by (simp add: min_def)
  qed
  then show ?thesis
    using True assms by (simp add: py_slice_def clamp_index_def Let_def min_def)
next
  case False
  then show ?thesis
    using assms by (simp add: py_slice_def clamp_index_def Let_def min_def)
qed

lemma chunk_loop_steps:
  assumes "0 < C - V"
  shows "chunk_loop ws C V start chunks =
     Some (chunks @ map (\<lambda>k. join_sp (py_slice ws (start + int k * (C - V))
                               (min (start + int k * (C - V) + C) (int (length ws)))))
                     [0..<nat ((int (length ws) - start + (C - V) - 1) div (C - V))])"
proof (induction "nat (int (length ws) - start)" arbitrary: start chunks rule: less_induct)
  case less
  let ?s = "C - V"
  show ?case
  proof (cases "start < int (length ws)")
    case False
    then have "int (length ws) - start + ?s - 1 < ?s" by simp
    then have "(int (length ws) - start + ?s - 1) div ?s \<le> 0"
      using assms by (smt (verit) div_pos_neg_trivial pos_imp_zdiv_neg_iff zdiv_eq_0_iff)
    then show ?thesis using False by (subst chunk_loop.simps) simp
  next
    case True
    let ?n' = "nat ((int (length ws) - (start + ?s) + ?s - 1) div ?s)"
    have n: "nat ((int (length ws) - start + ?s - 1) div ?s) = Suc ?n'"
    proof -
      have "int (length ws) - start + ?s - 1 = (int (length ws) - start - 1) + 1 * ?s"
        by simp
      then have "(int (length ws) - start + ?s - 1) div ?s =
                 ((int (length ws) - start - 1) + 1 * ?s) div ?s"
        by (rule arg_cong)
      also have "\<dots> = (int (length ws) - start - 1) div ?s + 1"
        using assms by simp
      finally have "(int (length ws) - start + ?s - 1) div ?s =
                    (int (length ws) - start - 1) div ?s + 1" .
      moreover have "0 \<le> (int (length ws) - start - 1) div ?s"
        using True assms by (simp add: pos_imp_zdiv_nonneg_iff)
      ultimately show ?thesis by (simp add: nat_add_distrib algebra_simps)
    qed
    have m: "nat (int (length ws) - (start + ?s)) < nat (int (length ws) - start)"
      using True assms by simp
    show ?thesis
      apply (subst chunk_loop.simps)
      apply (simp only: True if_True Let_def less.hyps [OF m] n)
      apply (simp add: map_upt_Suc del: upt_Suc)
      apply (simp add: algebra_simps)
      done
  qed
qed

lemma chunk_loop_windows:
  assumes "0 \<le> V" "V < C"
  shows "chunk_loop ws C V 0 [] =
     Some (map (\<lambda>k. join_sp (take (nat C) (drop (k * nat (C - V)) ws)))
             [0..<(length ws + nat (C - V) - 1) div nat (C - V)])"
proof -
  have cnt: "nat ((int (length ws) - 0 + (C - V) - 1) div (C - V)) =
        (length ws + nat (C - V) - 1) div nat (C - V)"
  proof -
    have "nat ((int (length ws) + (C - V) - 1) div (C - V)) =
          nat (int (length ws) + (C - V) - 1) div nat (C - V)"
      using assms by (simp add: nat_div_distrib)
    moreover have "nat (int (length ws) + (C - V) - 1) = length ws + nat (C - V) - 1"
      using assms by simp
    ultimately show ?thesis by simp
  qed
  have win: "py_slice ws (0 + int k * (C - V)) (min (0 + int k * (C - V) + C) (int (length ws)))
      = take (nat C) (drop (k * nat (C - V)) ws)" for k
    using assms py_slice_window [of "int k * (C - V)" C ws]
    by (simp add: nat_mult_distrib)
  have "0 < C - V" using assms by simp
  from chunk_loop_steps [OF this, where ws = ws and start = 0 and chunks = "[]"]
  show ?thesis
    by (simp only: cnt win append_Nil)
qed

lemma chunk_text_windows:
  assumes "0 \<le> V" "V < C"
  shows "chunk_text_with_overlap text C V =
     Some (map (\<lambda>k. join_sp (take (nat C) (drop (k * nat (C - V)) (py_split text))))
             [0..<(length (py_split text) + nat (C - V) - 1) div nat (C - V)])"
  unfolding chunk_text_with_overlap_def using assms by (rule chunk_loop_windows)



lemma chunk_text_no_tokens:
  "py_split text = [] \<Longrightarrow> chunk_text_with_overlap text C V = Some []"
  by (simp add: chunk_text_with_overlap_def chunk_loop.simps)

lemma chunk_loop_parts:
  assumes ret: "chunk_loop ws C V start chunks = Some out"
  shows "\<forall>c \<in> set out. c \<in> set chunks \<or> (\<exists>a b. c = join_sp (py_slice ws a b))"
proof (rule chunk_loop.raw_induct
    [where P = "\<lambda>ws C V start chunks out.
        \<forall>c \<in> set out. c \<in> set chunks \<or> (\<exists>a b. c = join_sp (py_slice ws a b))", OF _ ret])
  fix loop ws C V start chunks out
  assume IH: "\<And>ws C V start chunks out. loop ws C V start chunks = Some out \<Longrightarrow>
          \<forall>c \<in> set out. c \<in> set chunks \<or> (\<exists>a b. c = join_sp (py_slice ws a b))"
    and body: "(if start < int (length ws)
         then let end = min (start + C) (int (length ws))
              in loop ws C V (start + (C - V)) (chunks @ [join_sp (py_slice ws start end)])
         else Some chunks) = Some out"
  show "\<forall>c \<in> set out. c \<in> set chunks \<or> (\<exists>a b. c = join_sp (py_slice ws a b))"
  proof (cases "start < int (length ws)")
    case True
    with body have "loop ws C V (start + (C - V))
        (chunks @ [join_sp (py_slice ws start (min (start + C) (int (length ws))))]) = Some out"
      by (simp add: Let_def)
    from IH [OF this] show ?thesis by auto
  next
    case False
    with body show ?thesis by simp
  qed
qed

section \<open>Counting windows\<close>

lemma ceiling_div_pos:
  fixes a s :: int
  assumes "0 < s"
  shows "\<lceil>real_of_int a / real_of_int s\<rceil> = (a + s - 1) div s"
proof -
  have "\<lceil>real_of_int a / real_of_int s\<rceil> = - (- a div s)"
    by (rule ceiling_divide_eq_div)
  also have "\<dots> = (a + s - 1) div s"
  proof (cases "a mod s = 0")
    case True
    then obtain q where q: "a = q * s" by (metis mod_eq_0_iff_dvd dvd_def mult.commute)
    have "(q * s + s - 1) div s = (s - 1 + q * s) div s" by (simp add: algebra_simps)
    also have "\<dots> = q" using assms by simp
    finally have "(a + s - 1) div s = a div s" using assms q by simp
    then show ?thesis using assms True by (simp add: zdiv_zminus1_eq_if)
  next
    case False
    let ?q = "a div s" and ?r = "a mod s"
    have "0 \<le> ?r" "?r < s" using assms by simp_all
    with False have r: "0 < ?r" "?r < s" by simp_all
    have "a + s - 1 = (?r - 1) + (?q + 1) * s"
      by (simp add: algebra_simps)
    then have "(a + s - 1) div s = ((?r - 1) + (?q + 1) * s) div s" by (rule arg_cong)
    also have "\<dots> = ?q + 1" using assms r by simp
    finally show ?thesis using assms False by (simp add: zdiv_zminus1_eq_if)
  qed
  finally show ?thesis .
qed

lemma window_count_bounds:
  fixes T s :: nat
  assumes "0 < s"
  shows "i < (T + s - 1) div s \<Longrightarrow> i * s < T" and "T \<le> ((T + s - 1) div s) * s"
proof -
  show "i < (T + s - 1) div s \<Longrightarrow> i * s < T"
  proof -
    assume "i < (T + s - 1) div s"
    then have "Suc i \<le> (T + s - 1) div s" by simp
    then have "Suc i * s \<le> T + s - 1"
      using assms by (simp only: less_eq_div_iff_mult_less_eq)
    then show "i * s < T" using assms by simp
  qed
  have "(T + s - 1) div s * s + (T + s - 1) mod s = T + s - 1" by simp
  moreover have "(T + s - 1) mod s < s" using assms by simp
  ultimately show "T \<le> ((T + s - 1) div s) * s" by linarith
qed

lemma concat_window_prefixes:
  fixes s c :: nat
  assumes "s \<le> c"
  shows "concat (map (\<lambda>k. take s (take c (drop (k * s) ws))) [0..<n]) = take (n * s) ws"
proof (induction n)
  case 0
  then show ?case by simp
next
  case (Suc n)
  have "take s (take c (drop (n * s) ws)) = take s (drop (n * s) ws)"
    using assms by (simp add: min_def)
  moreover have "take (n * s + s) ws = take (n * s) ws @ take s (drop (n * s) ws)"
    by (rule take_add)
  ultimately show ?case using Suc by (simp add: add.commute)
qed

section \<open>Properties of the segmenter\<close>

lemma chunk_tokens:
  "py_split (join_sp (take c (drop m (py_split text)))) = take c (drop m (py_split text))"
  by (simp add: py_split_join good_take_drop py_split_good)

text \<open>
  Claim C7. For every text and all parameters with \<open>0 \<le> overlap < chunk_size\<close>,
  \<^verbatim>\<open>chunk_text_with_overlap\<close> returns. The window of chunk \<open>i\<close> starts at token
  \<open>i * (chunk_size - overlap)\<close>, which is below the number of tokens for every chunk that
  is produced, and the loop stops once the next start reaches or exceeds the number of
  tokens. Every chunk holds the (at most \<open>chunk_size\<close>) tokens from its start on, so the
  last one may be shorter.
\<close>

theorem chunk_text_terminates:
  assumes "0 \<le> V" "V < C"
  shows "\<exists>chunks. chunk_text_with_overlap text C V = Some chunks \<and>
     length (py_split text) \<le> length chunks * nat (C - V) \<and>
     (\<forall>i < length chunks.
        i * nat (C - V) < length (py_split text) \<and>
        py_split (chunks ! i) = take (nat C) (drop (i * nat (C - V)) (py_split text)) \<and>
        length (py_split (chunks ! i)) \<le> nat C)"
proof -
  let ?ws = "py_split text" and ?s = "nat (C - V)"
  let ?n = "(length ?ws + ?s - 1) div ?s"
  let ?chunks = "map (\<lambda>k. join_sp (take (nat C) (drop (k * ?s) ?ws))) [0..<?n]"
  have s: "0 < ?s" using assms by simp
  have "chunk_text_with_overlap text C V = Some ?chunks"
    using assms by (rule chunk_text_windows)
  moreover have "length ?ws \<le> length ?chunks * ?s"
    using window_count_bounds(2) [OF s, of "length ?ws"] by simp
  moreover have "\<forall>i < length ?chunks.
        i * ?s < length ?ws \<and>
        py_split (?chunks ! i) = take (nat C) (drop (i * ?s) ?ws) \<and>
        length (py_split (?chunks ! i)) \<le> nat C"
    using window_count_bounds(1) [OF s, of _ "length ?ws"] by (simp add: chunk_tokens)
  ultimately show ?thesis by (intro exI [of _ ?chunks] conjI)
qed

theorem chunk_text_terminates_witness:
  "(0::int) \<le> 1 \<and> (1::int) < 3 \<and>
   chunk_text_with_overlap ''a b c d e'' 3 1 = Some [''a b c'', ''c d e'', ''e''] \<and>
   length (py_split ''a b c d e'') \<le> length [''a b c'', ''c d e'', ''e''] * nat (3 - 1) \<and>
   2 * nat (3 - 1) < length (py_split ''a b c d e'') \<and>
   py_split ''e'' = take (nat 3) (drop (2 * nat (3 - 1)) (py_split ''a b c d e'')) \<and>
   length (py_split ''e'') \<le> nat 3"
proof -
  have h: "(0::int) \<le> 1" "(1::int) < 3" by simp_all
  have v: "chunk_text_with_overlap ''a b c d e'' 3 1 = Some [''a b c'', ''c d e'', ''e'']"
    by code_simp
  from chunk_text_terminates [OF h, of "''a b c d e''"] v
  have "length (py_split ''a b c d e'') \<le> length [''a b c'', ''c d e'', ''e''] * nat (3 - 1)"
    and "\<forall>i < length [''a b c'', ''c d e'', ''e''].
        i * nat (3 - 1) < length (py_split ''a b c d e'') \<and>
        py_split ([''a b c'', ''c d e'', ''e''] ! i) =
          take (nat 3) (drop (i * nat (3 - 1)) (py_split ''a b c d e'')) \<and>
        length (py_split ([''a b c'', ''c d e'', ''e''] ! i)) \<le> nat 3"
    by simp_all
  from this(1) this(2) [rule_format, of 2] h v show ?thesis by simp
qed

text \<open>
  Claim C10. \<^verbatim>\<open>chunk_text_with_overlap\<close> depends only on the token list of its input:
  two texts with the same \<^verbatim>\<open>split()\<close> give the same result for the same parameters.
  Every chunk of a returned list is a slice of the tokens joined by single spaces, so it
  equals its own tokens joined by single spaces: no whitespace of the input survives.
\<close>

theorem chunk_text_same_tokens:
  "(py_split t1 = py_split t2 \<longrightarrow>
      chunk_text_with_overlap t1 C V = chunk_text_with_overlap t2 C V) \<and>
   (chunk_text_with_overlap t1 C V = Some chunks \<longrightarrow>
      (\<forall>c \<in> set chunks.
         (\<exists>a b. c = join_sp (py_slice (py_split t1) a b)) \<and> join_sp (py_split c) = c))"
proof (intro conjI impI ballI)
  assume "py_split t1 = py_split t2"
  then show "chunk_text_with_overlap t1 C V = chunk_text_with_overlap t2 C V"
    by (simp add: chunk_text_with_overlap_def)
next
  fix c
  assume ret: "chunk_text_with_overlap t1 C V = Some chunks" and c: "c \<in> set chunks"
  from ret have "chunk_loop (py_split t1) C V 0 [] = Some chunks"
    by (simp add: chunk_text_with_overlap_def)
  from chunk_loop_parts [OF this] c
  obtain a b where ab: "c = join_sp (py_slice (py_split t1) a b)" by auto
  then show "\<exists>a b. c = join_sp (py_slice (py_split t1) a b)" by blast
  show "join_sp (py_split c) = c"
    by (simp add: ab py_split_join good_py_slice py_split_good)
qed

theorem chunk_text_same_tokens_witness:
  "py_split ''a  b c'' = py_split (''a b'' @ [newline] @ ''c '') \<and>
   chunk_text_with_overlap ''a  b c'' 2 1 = Some [''a b'', ''b c'', ''c''] \<and>
   chunk_text_with_overlap (''a b'' @ [newline] @ ''c '') 2 1 = Some [''a b'', ''b c'', ''c''] \<and>
   join_sp (py_split ''a b'') = ''a b'' \<and> join_sp (py_split ''b c'') = ''b c'' \<and>
   join_sp (py_split ''c'') = ''c''"
proof -
  have a: "py_split ''a  b c'' = py_split (''a b'' @ [newline] @ ''c '')" by code_simp
  have b: "chunk_text_with_overlap ''a  b c'' 2 1 = Some [''a b'', ''b c'', ''c'']" by code_simp
  from chunk_text_same_tokens [of "''a  b c''" "''a b'' @ [newline] @ ''c ''" 2 1
      "[''a b'', ''b c'', ''c'']"] a b
  show ?thesis by simp
qed


lemma scenario_windows:
  assumes "length ws = 1000"
  shows "map (\<lambda>k. join_sp (take 300 (drop (k * 250) ws))) [0..<4] =
     [join_sp (py_slice ws 0 300), join_sp (py_slice ws 250 550),
      join_sp (py_slice ws 500 800), join_sp (py_slice ws 750 1000)]"
    and "length (py_slice ws 750 1000) = 250"
proof -
  have u: "[0..<4] = [0, 1, 2, 3::nat]" by (simp add: upt_rec)
  have "take 300 (drop 750 ws) = take 250 (drop 750 ws)"
    using assms by simp
  then show "map (\<lambda>k. join_sp (take 300 (drop (k * 250) ws))) [0..<4] =
     [join_sp (py_slice ws 0 300), join_sp (py_slice ws 250 550),
      join_sp (py_slice ws 500 800), join_sp (py_slice ws 750 1000)]"
    using assms by (simp add: u py_slice_def clamp_index_def)
  show "length (py_slice ws 750 1000) = 250"
    using assms by (simp add: py_slice_def clamp_index_def)
qed

text \<open>
  Claim C1, as the code has it. For \<open>0 \<le> overlap < chunk_size\<close> the call returns chunks
  whose non-overlapping prefixes (the first \<open>chunk_size - overlap\<close> tokens of each)
  concatenate to the token list of the input, and the number of chunks is
  \<open>ceil(T / (chunk_size - overlap))\<close> for \<open>T\<close> tokens. For 1000 tokens, size 300 and
  overlap 50 there are four chunks, at the token offsets [0,300), [250,550), [500,800)
  and [750,1000), the last one 250 tokens long.
\<close>

theorem chunk_text_coverage:
  assumes "0 \<le> V" "V < C"
  shows "\<exists>chunks. chunk_text_with_overlap text C V = Some chunks \<and>
     concat (map (\<lambda>c. take (nat (C - V)) (py_split c)) chunks) = py_split text \<and>
     int (length chunks) = \<lceil>real (length (py_split text)) / real_of_int (C - V)\<rceil> \<and>
     (length (py_split text) = 1000 \<and> C = 300 \<and> V = 50 \<longrightarrow>
        chunks = [join_sp (py_slice (py_split text) 0 300),
                  join_sp (py_slice (py_split text) 250 550),
                  join_sp (py_slice (py_split text) 500 800),
                  join_sp (py_slice (py_split text) 750 1000)] \<and>
        length (py_slice (py_split text) 750 1000) = 250)"
proof -
  let ?ws = "py_split text" and ?s = "nat (C - V)"
  let ?n = "(length ?ws + ?s - 1) div ?s"
  let ?chunks = "map (\<lambda>k. join_sp (take (nat C) (drop (k * ?s) ?ws))) [0..<?n]"
  have s: "0 < ?s" "?s \<le> nat C" using assms by simp_all
  have ret: "chunk_text_with_overlap text C V = Some ?chunks"
    using assms by (rule chunk_text_windows)
  have "concat (map (\<lambda>c. take ?s (py_split c)) ?chunks) =
        concat (map (\<lambda>k. take ?s (take (nat C) (drop (k * ?s) ?ws))) [0..<?n])"
    by (simp add: comp_def chunk_tokens)
  also have "\<dots> = take (?n * ?s) ?ws"
    using s(2) by (rule concat_window_prefixes)
  also have "\<dots> = ?ws"
    using window_count_bounds(2) [OF s(1), of "length ?ws"] by simp
  finally have cover: "concat (map (\<lambda>c. take ?s (py_split c)) ?chunks) = ?ws" .
  have "int ?n = (int (length ?ws) + (C - V) - 1) div (C - V)"
  proof -
    have "int ?n = int (length ?ws + ?s - 1) div int ?s" by (simp add: zdiv_int)
    moreover have "int (length ?ws + ?s - 1) = int (length ?ws) + (C - V) - 1"
      using assms by simp
    moreover have "int ?s = C - V" using assms by simp
    ultimately show ?thesis by simp
  qed
  also have "\<dots> = \<lceil>real_of_int (int (length ?ws)) / real_of_int (C - V)\<rceil>"
  proof -
    have "0 < C - V" using assms by simp
    then show ?thesis by (rule ceiling_div_pos [symmetric])
  qed
  finally have count: "int (length ?chunks) = \<lceil>real (length ?ws) / real_of_int (C - V)\<rceil>"
    by simp
  have scen: "length ?ws = 1000 \<and> C = 300 \<and> V = 50 \<longrightarrow>
        ?chunks = [join_sp (py_slice ?ws 0 300), join_sp (py_slice ?ws 250 550),
                   join_sp (py_slice ?ws 500 800), join_sp (py_slice ?ws 750 1000)] \<and>
        length (py_slice ?ws 750 1000) = 250"
  proof (intro impI conjI)
    assume a: "length ?ws = 1000 \<and> C = 300 \<and> V = 50"
    then have "?n = 4" "?s = 250" "nat C = 300" by simp_all
    then show "?chunks = [join_sp (py_slice ?ws 0 300), join_sp (py_slice ?ws 250 550),
                   join_sp (py_slice ?ws 500 800), join_sp (py_slice ?ws 750 1000)]"
      using scenario_windows(1) [of ?ws] a by simp
    show "length (py_slice ?ws 750 1000) = 250"
      using scenario_windows(2) [of ?ws] a by simp
  qed
  from ret cover count scen show ?thesis by (intro exI [of _ ?chunks] conjI)
qed

text \<open>
  The count \<open>ceil((T - overlap) / (chunk_size - overlap))\<close> of the specification fails on
  five tokens with size 3 and overlap 1: the code returns three chunks, the formula gives two.
\<close>

theorem chunk_count_counterexample:
  "chunk_text_with_overlap ''a b c d e'' 3 1 = Some [''a b c'', ''c d e'', ''e''] \<and>
   int (length [''a b c'', ''c d e'', ''e'']) \<noteq>
     spec_chunk_count (int (length (py_split ''a b c d e''))) 3 1"
proof
  show "chunk_text_with_overlap ''a b c d e'' 3 1 = Some [''a b c'', ''c d e'', ''e'']"
    by code_simp
  have "length (py_split ''a b c d e'') = 5" by code_simp
  moreover have "spec_chunk_count 5 3 1 = 2" by (simp add: spec_chunk_count_def)
  ultimately show "int (length [''a b c'', ''c d e'', ''e'']) \<noteq>
     spec_chunk_count (int (length (py_split ''a b c d e''))) 3 1"
    by simp
qed

text \<open>
  Claim C5, as the code has it. For \<open>0 \<le> overlap < chunk_size\<close> and every pair of adjacent
  chunks, the leading \<open>overlap\<close> tokens of chunk \<open>i + 1\<close> are the tokens of chunk \<open>i\<close> after
  its first \<open>chunk_size - overlap\<close>; when chunk \<open>i\<close> has the full \<open>chunk_size\<close> tokens,
  these are its trailing \<open>overlap\<close> tokens.
\<close>

theorem chunk_text_overlap:
  assumes "0 \<le> V" "V < C"
  shows "\<exists>chunks. chunk_text_with_overlap text C V = Some chunks \<and>
     (\<forall>i. Suc i < length chunks \<longrightarrow>
        leading (nat V) (py_split (chunks ! Suc i)) =
          drop (nat (C - V)) (py_split (chunks ! i)) \<and>
        (length (py_split (chunks ! i)) = nat C \<longrightarrow>
           trailing (nat V) (py_split (chunks ! i)) =
             leading (nat V) (py_split (chunks ! Suc i))))"
proof -
  let ?ws = "py_split text" and ?s = "nat (C - V)"
  let ?n = "(length ?ws + ?s - 1) div ?s"
  let ?chunks = "map (\<lambda>k. join_sp (take (nat C) (drop (k * ?s) ?ws))) [0..<?n]"
  have ret: "chunk_text_with_overlap text C V = Some ?chunks"
    using assms by (rule chunk_text_windows)
  have cv: "nat C - ?s = nat V" "nat V \<le> nat C" "nat C - nat V = ?s"
    using assms by simp_all
  have "leading (nat V) (py_split (?chunks ! Suc i)) = drop ?s (py_split (?chunks ! i)) \<and>
        (length (py_split (?chunks ! i)) = nat C \<longrightarrow>
           trailing (nat V) (py_split (?chunks ! i)) =
             leading (nat V) (py_split (?chunks ! Suc i)))"
    if i: "Suc i < length ?chunks" for i
  proof -
    have t0: "py_split (?chunks ! i) = take (nat C) (drop (i * ?s) ?ws)"
      using i by (simp add: chunk_tokens)
    have t1: "py_split (?chunks ! Suc i) = take (nat C) (drop (i * ?s + ?s) ?ws)"
      using i by (simp add: chunk_tokens add.commute)
    have "leading (nat V) (py_split (?chunks ! Suc i)) = take (nat V) (drop (i * ?s + ?s) ?ws)"
      unfolding t1 leading_def using cv(2) by (simp add: min_def)
    also have "\<dots> = drop ?s (take (nat C) (drop (i * ?s) ?ws))"
      by (simp add: drop_take cv(1) add.commute)
    finally have l: "leading (nat V) (py_split (?chunks ! Suc i)) = drop ?s (py_split (?chunks ! i))"
      unfolding t0 .
    have "trailing (nat V) (py_split (?chunks ! i)) = drop ?s (py_split (?chunks ! i))"
      if "length (py_split (?chunks ! i)) = nat C"
      unfolding trailing_def that cv(3) ..
    with l show ?thesis by simp
  qed
  then have "\<forall>i. Suc i < length ?chunks \<longrightarrow>
        leading (nat V) (py_split (?chunks ! Suc i)) = drop ?s (py_split (?chunks ! i)) \<and>
        (length (py_split (?chunks ! i)) = nat C \<longrightarrow>
           trailing (nat V) (py_split (?chunks ! i)) =
             leading (nat V) (py_split (?chunks ! Suc i)))"
    by (intro allI impI)
  with ret show ?thesis by (intro exI [of _ ?chunks] conjI)
qed

text \<open>
  The overlap property as stated fails on three tokens with size 3 and overlap 2: the
  chunks are \<open>a b c\<close>, \<open>b c\<close> and \<open>c\<close>, and the trailing two tokens of \<open>b c\<close> are not the
  leading two tokens of \<open>c\<close>.
\<close>

theorem chunk_text_overlap_counterexample:
  "chunk_text_with_overlap ''a b c'' 3 2 = Some [''a b c'', ''b c'', ''c''] \<and>
   trailing 2 (py_split ''b c'') \<noteq> leading 2 (py_split ''c'')"
proof
  show "chunk_text_with_overlap ''a b c'' 3 2 = Some [''a b c'', ''b c'', ''c'']"
    by code_simp
  have "py_split ''b c'' = [''b'', ''c'']" by code_simp
  moreover have "py_split ''c'' = [''c'']" by code_simp
  ultimately show "trailing 2 (py_split ''b c'') \<noteq> leading 2 (py_split ''c'')"
    by (simp add: trailing_def leading_def)
qed

lemma replicate_text_tokens:
  "py_split (join_sp (replicate n ''w'')) = replicate n ''w''"
  by (rule py_split_join) (simp add: list_all_iff good_token_def is_space_def)

theorem chunk_text_coverage_witness:
  "(0::int) \<le> 50 \<and> (50::int) < 300 \<and>
   length (py_split (join_sp (replicate 1000 ''w''))) = 1000 \<and>
   chunk_text_with_overlap (join_sp (replicate 1000 ''w'')) 300 50 =
     Some [join_sp (replicate 300 ''w''), join_sp (replicate 300 ''w''),
           join_sp (replicate 300 ''w''), join_sp (replicate 250 ''w'')] \<and>
   concat (map (\<lambda>c. take (nat (300 - 50)) (py_split c))
     [join_sp (replicate 300 ''w''), join_sp (replicate 300 ''w''),
      join_sp (replicate 300 ''w''), join_sp (replicate 250 ''w'')]) =
     py_split (join_sp (replicate 1000 ''w''))"
proof -
  let ?text = "join_sp (replicate 1000 ''w'')"
  have h: "(0::int) \<le> 50" "(50::int) < 300" by simp_all
  have len: "length (py_split ?text) = 1000"
    by (simp add: replicate_text_tokens)
  from chunk_text_coverage [OF h, of ?text] len
  obtain chunks where ret: "chunk_text_with_overlap ?text 300 50 = Some chunks"
    and cover: "concat (map (\<lambda>c. take (nat (300 - 50)) (py_split c)) chunks) = py_split ?text"
    and scen: "chunks = [join_sp (py_slice (py_split ?text) 0 300),
                  join_sp (py_slice (py_split ?text) 250 550),
                  join_sp (py_slice (py_split ?text) 500 800),
                  join_sp (py_slice (py_split ?text) 750 1000)]"
    by auto
  have "chunks = [join_sp (replicate 300 ''w''), join_sp (replicate 300 ''w''),
           join_sp (replicate 300 ''w''), join_sp (replicate 250 ''w'')]"
    unfolding scen replicate_text_tokens by (simp add: py_slice_def clamp_index_def)
  with h len ret cover show ?thesis by simp
qed

theorem chunk_text_overlap_witness:
  "(0::int) \<le> 1 \<and> (1::int) < 3 \<and>
   chunk_text_with_overlap ''a b c d e'' 3 1 = Some [''a b c'', ''c d e'', ''e''] \<and>
   Suc 0 < length [''a b c'', ''c d e'', ''e''] \<and>
   length (py_split ''a b c'') = nat 3 \<and>
   leading (nat 1) (py_split ''c d e'') = drop (nat (3 - 1)) (py_split ''a b c'') \<and>
   trailing (nat 1) (py_split ''a b c'') = leading (nat 1) (py_split ''c d e'')"
proof -
  have h: "(0::int) \<le> 1" "(1::int) < 3" by simp_all
  have v: "chunk_text_with_overlap ''a b c d e'' 3 1 = Some [''a b c'', ''c d e'', ''e'']"
    by code_simp
  have l: "length (py_split ''a b c'') = nat 3" by code_simp
  from chunk_text_overlap [OF h, of "''a b c d e''"] v
  have "\<forall>i. Suc i < length [''a b c'', ''c d e'', ''e''] \<longrightarrow>
        leading (nat 1) (py_split ([''a b c'', ''c d e'', ''e''] ! Suc i)) =
          drop (nat (3 - 1)) (py_split ([''a b c'', ''c d e'', ''e''] ! i)) \<and>
        (length (py_split ([''a b c'', ''c d e'', ''e''] ! i)) = nat 3 \<longrightarrow>
           trailing (nat 1) (py_split ([''a b c'', ''c d e'', ''e''] ! i)) =
             leading (nat 1) (py_split ([''a b c'', ''c d e'', ''e''] ! Suc i)))"
    by simp
  from this [rule_format, of 0] l h v show ?thesis by simp
qed

section \<open>The line parser\<close>

lemma parse_line_stray:
  "\<not> startswith x ''Q:'' \<Longrightarrow> \<not> startswith x ''A:'' \<Longrightarrow> parse_line st x = st"
  by (cases st) simp

lemma parse_line_q:
  "startswith x ''Q:'' \<Longrightarrow> parse_line st x = (Some (py_strip (drop 2 x)), snd st)"
  by (cases st) simp

lemma startswith_exclusive: "startswith x ''A:'' \<Longrightarrow> \<not> startswith x ''Q:''"
  by (auto simp: startswith_def)

lemma parse_line_a_idle:
  "startswith x ''A:'' \<Longrightarrow> fst st = None \<or> fst st = Some [] \<Longrightarrow> parse_line st x = st"
  by (cases st) (auto simp: startswith_exclusive)

lemma parse_line_a_after:
  "startswith x ''A:'' \<Longrightarrow> fst (parse_line st x) = None \<or> fst (parse_line st x) = Some []"
  by (cases st) (auto simp: startswith_exclusive split: option.splits)

lemma parse_line_no_a:
  "\<not> startswith x ''A:'' \<Longrightarrow> snd (parse_line st x) = snd st"
  by (cases st) simp

lemma foldl_parse_no_a:
  "\<forall>l \<in> set ls. \<not> startswith l ''A:'' \<Longrightarrow> snd (foldl parse_line st ls) = snd st"
  by (induction ls arbitrary: st) (simp_all add: parse_line_no_a del: parse_line.simps)

lemma foldl_parse_no_q:
  "\<forall>l \<in> set ls. \<not> startswith l ''Q:'' \<Longrightarrow> foldl parse_line (None, acc) ls = (None, acc)"
  by (induction ls) simp_all

lemma parse_stray_line:
  assumes "\<not> startswith x ''Q:''" "\<not> startswith x ''A:''"
  shows "parse_qa_lines (pre @ x # post) = parse_qa_lines (pre @ post)"
  using assms by (simp add: parse_qa_lines_def parse_line_stray del: parse_line.simps)

lemma parse_answer_without_question:
  assumes "startswith x ''A:''" "\<forall>l \<in> set pre. \<not> startswith l ''Q:''"
  shows "parse_qa_lines (pre @ x # post) = parse_qa_lines post"
  using assms parse_line_a_idle [of x "(None, [])"]
  by (simp add: parse_qa_lines_def foldl_parse_no_q del: parse_line.simps)

lemma parse_second_answer:
  assumes "startswith a ''A:''" "startswith x ''A:''"
  shows "parse_qa_lines (pre @ a # x # post) = parse_qa_lines (pre @ a # post)"
  using assms parse_line_a_after [OF assms(1), of "foldl parse_line (None, []) pre"]
  by (simp add: parse_qa_lines_def parse_line_a_idle del: parse_line.simps)

lemma parse_question_without_answer:
  assumes "startswith x ''Q:''" "\<forall>l \<in> set post. \<not> startswith l ''A:''"
  shows "parse_qa_lines (pre @ x # post) = parse_qa_lines pre"
  using assms by (simp add: parse_qa_lines_def foldl_parse_no_a parse_line_q del: parse_line.simps)

lemma parse_line_cases:
  "(startswith x ''Q:'' \<and> parse_line (cur, acc) x = (Some (py_strip (drop 2 x)), acc)) \<or>
   (\<exists>q. startswith x ''A:'' \<and> cur = Some q \<and> q \<noteq> [] \<and>
      parse_line (cur, acc) x = (None, acc @ [make_qa q (py_strip (drop 2 x))])) \<or>
   parse_line (cur, acc) x = (cur, acc)"
  by (cases cur) simp_all

lemma foldl_parse_pairs:
  "foldl parse_line (None, []) ls = (cur, acc) \<Longrightarrow>
     (\<forall>q. cur = Some q \<longrightarrow>
        (\<exists>i < length ls. startswith (ls ! i) ''Q:'' \<and> q = py_strip (drop 2 (ls ! i)))) \<and>
     (\<forall>r \<in> set acc. \<exists>i j. i < j \<and> j < length ls \<and>
        startswith (ls ! i) ''Q:'' \<and> startswith (ls ! j) ''A:'' \<and>
        py_strip (drop 2 (ls ! i)) \<noteq> [] \<and>
        r = make_qa (py_strip (drop 2 (ls ! i))) (py_strip (drop 2 (ls ! j))))"
proof (induction ls arbitrary: cur acc rule: rev_induct)
  case Nil
  then show ?case by simp
next
  case (snoc x ls)
  obtain cur0 acc0 where st: "foldl parse_line (None, []) ls = (cur0, acc0)"
    by (cases "foldl parse_line (None, []) ls")
  note IH = snoc.IH [OF st]
  from snoc.prems st have step: "parse_line (cur0, acc0) x = (cur, acc)"
    by (simp del: parse_line.simps)
  have old: "\<exists>i j. i < j \<and> j < length (ls @ [x]) \<and>
        startswith ((ls @ [x]) ! i) ''Q:'' \<and> startswith ((ls @ [x]) ! j) ''A:'' \<and>
        py_strip (drop 2 ((ls @ [x]) ! i)) \<noteq> [] \<and>
        r = make_qa (py_strip (drop 2 ((ls @ [x]) ! i))) (py_strip (drop 2 ((ls @ [x]) ! j)))"
    if "r \<in> set acc0" for r
  proof -
    from IH that obtain i j where ij: "i < j" "j < length ls"
      "startswith (ls ! i) ''Q:''" "startswith (ls ! j) ''A:''"
      "py_strip (drop 2 (ls ! i)) \<noteq> []"
      "r = make_qa (py_strip (drop 2 (ls ! i))) (py_strip (drop 2 (ls ! j)))"
      by blast
    then have "(ls @ [x]) ! i = ls ! i" "(ls @ [x]) ! j = ls ! j"
      by (simp_all add: nth_append)
    with ij show ?thesis
      by (intro exI [of _ i] exI [of _ j]) simp
  qed
  have oldq: "\<exists>i < length (ls @ [x]). startswith ((ls @ [x]) ! i) ''Q:'' \<and>
        q = py_strip (drop 2 ((ls @ [x]) ! i))"
    if "cur0 = Some q" for q
  proof -
    from IH that obtain i where i: "i < length ls" "startswith (ls ! i) ''Q:''"
      "q = py_strip (drop 2 (ls ! i))"
      by blast
    then have "(ls @ [x]) ! i = ls ! i" by (simp add: nth_append)
    with i show ?thesis by (intro exI [of _ i]) simp
  qed
  from parse_line_cases [of x cur0 acc0]
  consider (question) "startswith x ''Q:''"
      "parse_line (cur0, acc0) x = (Some (py_strip (drop 2 x)), acc0)"
    | (answer) q where "startswith x ''A:''" "cur0 = Some q" "q \<noteq> []"
      "parse_line (cur0, acc0) x = (None, acc0 @ [make_qa q (py_strip (drop 2 x))])"
    | (skip) "parse_line (cur0, acc0) x = (cur0, acc0)"
    by blast
  then show ?case
  proof cases
    case question
    with step have "cur = Some (py_strip (drop 2 x))" "acc = acc0" by simp_all
    moreover have "\<exists>i < length (ls @ [x]). startswith ((ls @ [x]) ! i) ''Q:'' \<and>
        py_strip (drop 2 x) = py_strip (drop 2 ((ls @ [x]) ! i))"
      using question(1) by (intro exI [of _ "length ls"]) simp
    ultimately show ?thesis using old by simp
  next
    case (answer q)
    with step have ca: "cur = None" "acc = acc0 @ [make_qa q (py_strip (drop 2 x))]"
      by simp_all
    from oldq [OF answer(2)] obtain i where i: "i < length (ls @ [x])"
      "startswith ((ls @ [x]) ! i) ''Q:''" "q = py_strip (drop 2 ((ls @ [x]) ! i))"
      by blast
    have "i \<noteq> length ls"
      using i(2) answer(1) by (auto simp: startswith_def)
    with i(1) have il: "i < length ls" by simp
    have new: "\<exists>i j. i < j \<and> j < length (ls @ [x]) \<and>
        startswith ((ls @ [x]) ! i) ''Q:'' \<and> startswith ((ls @ [x]) ! j) ''A:'' \<and>
        py_strip (drop 2 ((ls @ [x]) ! i)) \<noteq> [] \<and>
        make_qa q (py_strip (drop 2 x)) =
          make_qa (py_strip (drop 2 ((ls @ [x]) ! i))) (py_strip (drop 2 ((ls @ [x]) ! j)))"
      using il i(2,3) answer(1,3)
      by (intro exI [of _ i] exI [of _ "length ls"]) simp
    show ?thesis using ca old new by auto
  next
    case skip
    with step have "cur = cur0" "acc = acc0" by simp_all
    then show ?thesis using old oldq by simp
  qed
qed

lemma parse_qa_lines_pairs:
  assumes "r \<in> set (parse_qa_lines ls)"
  shows "\<exists>i j. i < j \<and> j < length ls \<and>
        startswith (ls ! i) ''Q:'' \<and> startswith (ls ! j) ''A:'' \<and>
        py_strip (drop 2 (ls ! i)) \<noteq> [] \<and>
        r = make_qa (py_strip (drop 2 (ls ! i))) (py_strip (drop 2 (ls ! j)))"
proof -
  obtain cur acc where st: "foldl parse_line (None, []) ls = (cur, acc)"
    by (cases "foldl parse_line (None, []) ls")
  with assms have "r \<in> set acc" by (simp add: parse_qa_lines_def)
  with foldl_parse_pairs [OF st] show ?thesis by blast
qed

text \<open>
  Claim C8. The line parser of \<^verbatim>\<open>generate_qa_from_chunk\<close> skips malformed input: a
  line with neither prefix changes nothing; an \<open>A:\<close> line is discarded when no \<open>Q:\<close> line
  precedes it, and when it directly follows another \<open>A:\<close> line; a \<open>Q:\<close> line after which
  no \<open>A:\<close> line comes yields no record; and every record that is emitted pairs a \<open>Q:\<close>
  line of the output with a later \<open>A:\<close> line.
\<close>

theorem parser_skips_malformed:
  "(\<not> startswith x ''Q:'' \<and> \<not> startswith x ''A:'' \<longrightarrow>
      parse_qa_lines (pre @ x # post) = parse_qa_lines (pre @ post)) \<and>
   (startswith x ''A:'' \<and> (\<forall>l \<in> set pre. \<not> startswith l ''Q:'') \<longrightarrow>
      parse_qa_lines (pre @ x # post) = parse_qa_lines post) \<and>
   (startswith a ''A:'' \<and> startswith x ''A:'' \<longrightarrow>
      parse_qa_lines (pre @ a # x # post) = parse_qa_lines (pre @ a # post)) \<and>
   (startswith x ''Q:'' \<and> (\<forall>l \<in> set post. \<not> startswith l ''A:'') \<longrightarrow>
      parse_qa_lines (pre @ x # post) = parse_qa_lines pre) \<and>
   (\<exists>recs. generate_qa_from_chunk (Content c) = Inr recs \<and>
      (\<forall>r \<in> set recs. \<exists>i j. i < j \<and> j < length (content_lines c) \<and>
         startswith (content_lines c ! i) ''Q:'' \<and> startswith (content_lines c ! j) ''A:'' \<and>
         r = make_qa (py_strip (drop 2 (content_lines c ! i)))
                     (py_strip (drop 2 (content_lines c ! j)))))"
proof (intro conjI impI)
  show "parse_qa_lines (pre @ x # post) = parse_qa_lines (pre @ post)"
    if "\<not> startswith x ''Q:'' \<and> \<not> startswith x ''A:''"
    using that by (simp add: parse_stray_line)
  show "parse_qa_lines (pre @ x # post) = parse_qa_lines post"
    if "startswith x ''A:'' \<and> (\<forall>l \<in> set pre. \<not> startswith l ''Q:'')"
    using that by (simp add: parse_answer_without_question)
  show "parse_qa_lines (pre @ a # x # post) = parse_qa_lines (pre @ a # post)"
    if "startswith a ''A:'' \<and> startswith x ''A:''"
    using that by (simp add: parse_second_answer)
  show "parse_qa_lines (pre @ x # post) = parse_qa_lines pre"
    if "startswith x ''Q:'' \<and> (\<forall>l \<in> set post. \<not> startswith l ''A:'')"
    using that by (simp add: parse_question_without_answer)
  have "\<forall>r \<in> set (parse_qa_lines (content_lines c)).
      \<exists>i j. i < j \<and> j < length (content_lines c) \<and>
         startswith (content_lines c ! i) ''Q:'' \<and> startswith (content_lines c ! j) ''A:'' \<and>
         r = make_qa (py_strip (drop 2 (content_lines c ! i)))
                     (py_strip (drop 2 (content_lines c ! j)))"
    using parse_qa_lines_pairs [of _ "content_lines c"] by blast
  then show "\<exists>recs. generate_qa_from_chunk (Content c) = Inr recs \<and>
      (\<forall>r \<in> set recs. \<exists>i j. i < j \<and> j < length (content_lines c) \<and>
         startswith (content_lines c ! i) ''Q:'' \<and> startswith (content_lines c ! j) ''A:'' \<and>
         r = make_qa (py_strip (drop 2 (content_lines c ! i)))
                     (py_strip (drop 2 (content_lines c ! j))))"
    by (simp add: generate_qa_from_chunk_def)
qed

theorem parser_skips_malformed_witness:
  "parse_qa_lines [''Q: a'', ''note'', ''A: b''] = parse_qa_lines [''Q: a'', ''A: b''] \<and>
   parse_qa_lines [''intro'', ''A: b'', ''Q: a'', ''A: c''] = parse_qa_lines [''Q: a'', ''A: c''] \<and>
   parse_qa_lines [''Q: a'', ''A: b'', ''A: c''] = parse_qa_lines [''Q: a'', ''A: b''] \<and>
   parse_qa_lines [''Q: a'', ''A: b'', ''Q: c'', ''note''] = parse_qa_lines [''Q: a'', ''A: b''] \<and>
   parse_qa_lines [''Q: a'', ''A: b''] = [make_qa ''a'' ''b''] \<and>
   generate_qa_from_chunk (Content (''Q: a'' @ [newline] @ ''A: b'')) = Inr [make_qa ''a'' ''b''] \<and>
   content_lines (''Q: a'' @ [newline] @ ''A: b'') = [''Q: a'', ''A: b'']"
proof -
  have 1: "parse_qa_lines [''Q: a'', ''note'', ''A: b''] = parse_qa_lines [''Q: a'', ''A: b'']"
    using parser_skips_malformed [of "''note''" "[''Q: a'']" "[''A: b'']"]
    by (simp add: startswith_def)
  have 2: "parse_qa_lines [''intro'', ''A: b'', ''Q: a'', ''A: c''] =
           parse_qa_lines [''Q: a'', ''A: c'']"
    using parser_skips_malformed [of "''A: b''" "[''intro'']" "[''Q: a'', ''A: c'']"]
    by (simp add: startswith_def)
  have 3: "parse_qa_lines [''Q: a'', ''A: b'', ''A: c''] = parse_qa_lines [''Q: a'', ''A: b'']"
    using parser_skips_malformed [of "''A: c''" "[''Q: a'']" "[]" "''A: b''"]
    by (simp add: startswith_def)
  have 4: "parse_qa_lines [''Q: a'', ''A: b'', ''Q: c'', ''note''] =
           parse_qa_lines [''Q: a'', ''A: b'']"
    using parser_skips_malformed [of "''Q: c''" "[''Q: a'', ''A: b'']" "[''note'']"]
    by (simp add: startswith_def)
  have 5: "parse_qa_lines [''Q: a'', ''A: b''] = [make_qa ''a'' ''b'']" by code_simp
  have 6: "generate_qa_from_chunk (Content (''Q: a'' @ [newline] @ ''A: b'')) =
           Inr [make_qa ''a'' ''b'']" by code_simp
  have 7: "content_lines (''Q: a'' @ [newline] @ ''A: b'') = [''Q: a'', ''A: b'']" by code_simp
  from 1 2 3 4 5 6 7 show ?thesis by (intro conjI)
qed

section \<open>Normalised questions\<close>

lemma py_strip_ends:
  "py_strip s = [] \<or> (\<not> is_space (hd (py_strip s)) \<and> \<not> is_space (last (py_strip s)))"
proof (cases "py_strip s = []")
  case True
  then show ?thesis by simp
next
  case False
  let ?u = "dropWhile is_space s"
  let ?v = "dropWhile is_space (rev ?u)"
  from False have v: "?v \<noteq> []" by (simp add: py_strip_def)
  have u: "?u \<noteq> []"
  proof
    assume "?u = []"
    then have "?v = []" by (simp only: rev.simps dropWhile.simps)
    with v show False ..
  qed
  have "\<not> is_space (hd ?v)" using v by (rule hd_dropWhile)
  then have l: "\<not> is_space (last (py_strip s))"
    using v by (simp add: py_strip_def last_rev)
  have "rev ?u = takeWhile is_space (rev ?u) @ ?v" by simp
  then have "last (rev ?u) = last ?v" using v by (metis last_appendR)
  then have "last ?v = hd ?u" using u by (simp add: last_rev)
  moreover have "\<not> is_space (hd ?u)" using u by (rule hd_dropWhile)
  ultimately have "\<not> is_space (hd (py_strip s))"
    using v by (simp add: py_strip_def hd_rev)
  with l show ?thesis by simp
qed

lemma py_strip_idem: "py_strip (py_strip s) = py_strip s"
proof (cases "py_strip s = []")
  case True
  have "py_strip [] = []" by (simp add: py_strip_def)
  with True show ?thesis by simp
next
  case False
  with py_strip_ends [of s]
  have e: "\<not> is_space (hd (py_strip s))" "\<not> is_space (last (py_strip s))" by simp_all
  have 1: "dropWhile is_space (py_strip s) = py_strip s"
    using e(1) by (simp add: dropWhile_eq_self_iff)
  have "hd (rev (py_strip s)) = last (py_strip s)"
    using False by (simp add: hd_rev)
  then have 2: "dropWhile is_space (rev (py_strip s)) = rev (py_strip s)"
    using e(2) by (simp add: dropWhile_eq_self_iff)
  show ?thesis
    by (subst py_strip_def) (simp only: 1 2 rev_rev_ident)
qed

lemma user_msg_make_qa: "user_msg (make_qa q a) = py_lower (py_strip q)"
  by (simp add: user_msg_def make_qa_def)

lemma parsed_user_msg:
  assumes "r \<in> set (parse_qa_lines ls)"
  shows "user_msg r \<noteq> []"
proof -
  from parse_qa_lines_pairs [OF assms] obtain i j where
    ne: "py_strip (drop 2 (ls ! i)) \<noteq> []"
    and r: "r = make_qa (py_strip (drop 2 (ls ! i))) (py_strip (drop 2 (ls ! j)))"
    by blast
  show ?thesis
    using ne by (simp add: r user_msg_make_qa py_strip_idem py_lower_def)
qed

section \<open>The aggregation loop\<close>

lemma add_qa_errors: "add_qa (st\<lparr>error_chunks := e\<rparr>) qa = (add_qa st qa)\<lparr>error_chunks := e\<rparr>"
  by (simp add: add_qa_def)

lemma foldl_add_qa_errors:
  "foldl add_qa (st\<lparr>error_chunks := e\<rparr>) qs = (foldl add_qa st qs)\<lparr>error_chunks := e\<rparr>"
  by (induction qs arbitrary: st) (simp_all add: add_qa_errors)

lemma error_chunks_add_qa: "error_chunks (add_qa st qa) = error_chunks st"
  by (simp add: add_qa_def)

lemma error_chunks_foldl_add_qa: "error_chunks (foldl add_qa st qs) = error_chunks st"
  by (induction qs arbitrary: st) (simp_all add: error_chunks_add_qa)

lemma completion_step_payload:
  "completion_step st c =
     (foldl add_qa st (payload c))
       \<lparr>error_chunks := error_chunks st @ (if raises c then [fst c] else [])\<rparr>"
  by (cases c) (simp add: payload_def raises_def error_chunks_foldl_add_qa split: sum.splits)

lemma foldl_completion_step:
  "foldl completion_step st cs =
     (foldl add_qa st (concat (map payload cs)))
       \<lparr>error_chunks := error_chunks st @ map fst (filter raises cs)\<rparr>"
proof (induction cs arbitrary: st)
  case Nil
  show ?case by simp
next
  case (Cons c cs)
  have "foldl completion_step st (c # cs) = foldl completion_step (completion_step st c) cs"
    by simp
  also have "\<dots> = (foldl add_qa (completion_step st c) (concat (map payload cs)))
       \<lparr>error_chunks := error_chunks (completion_step st c) @ map fst (filter raises cs)\<rparr>"
    by (rule Cons)
  also have "\<dots> = (foldl add_qa st (concat (map payload (c # cs))))
       \<lparr>error_chunks := error_chunks st @ map fst (filter raises (c # cs))\<rparr>"
    by (simp add: completion_step_payload foldl_add_qa_errors error_chunks_foldl_add_qa
        del: completion_step.simps)
  finally show ?case .
qed



lemma process_chunks_parallel_payloads:
  "process_chunks_parallel cs =
     all_qa (foldl add_qa \<lparr>all_qa = [], seen_questions = {}, error_chunks = []\<rparr>
               (concat (map payload cs)))"
  by (simp add: process_chunks_parallel_def process_chunks_state_def foldl_completion_step)


lemma add_qa_seen:
  assumes "seen_questions st = set (map user_msg (all_qa st))" "distinct (map user_msg (all_qa st))"
  shows "seen_questions (add_qa st qa) = set (map user_msg (all_qa (add_qa st qa))) \<and>
         distinct (map user_msg (all_qa (add_qa st qa)))"
  using assms by (simp add: add_qa_def)

lemma foldl_add_qa_seen:
  assumes "seen_questions st = set (map user_msg (all_qa st))" "distinct (map user_msg (all_qa st))"
  shows "seen_questions (foldl add_qa st qs) = set (map user_msg (all_qa (foldl add_qa st qs))) \<and>
         distinct (map user_msg (all_qa (foldl add_qa st qs)))"
  using assms
proof (induction qs arbitrary: st)
  case Nil
  then show ?case by simp
next
  case (Cons q qs)
  from add_qa_seen [OF Cons.prems] show ?case
    by (simp add: Cons.IH)
qed

lemma process_chunks_distinct: "distinct (map user_msg (process_chunks_parallel cs))"
  using foldl_add_qa_seen [of "\<lparr>all_qa = [], seen_questions = {}, error_chunks = []\<rparr>"
      "concat (map payload cs)"]
  by (simp add: process_chunks_parallel_payloads)

lemma generated_user_msg:
  assumes "generate_qa_from_chunk outcome = Inr qs" "q \<in> set qs"
  shows "user_msg q \<noteq> []"
proof (cases outcome)
  case ApiException
  with assms show ?thesis by (simp add: generate_qa_from_chunk_def)
next
  case NoContent
  with assms show ?thesis by (simp add: generate_qa_from_chunk_def)
next
  case (Content c)
  with assms have "q \<in> set (parse_qa_lines (content_lines c))"
    by (auto simp: generate_qa_from_chunk_def)
  then show ?thesis by (rule parsed_user_msg)
qed

text \<open>
  Claim C2. No two records of a list returned by \<^verbatim>\<open>process_chunks_parallel\<close> have the
  same normalised question (the user message, stripped and lowercased). Two successful
  payloads of one record each whose questions normalise identically give exactly one
  record: the one completed first, with its own answer.
\<close>

theorem dedup_by_normalized_question:
  "distinct (map user_msg (process_chunks_parallel cs)) \<and>
   (generate_qa_from_chunk o1 = Inr [q1] \<and> generate_qa_from_chunk o2 = Inr [q2] \<and>
    user_msg q1 = user_msg q2 \<longrightarrow>
      process_chunks_parallel [(i, o1), (j, o2)] = [q1])"
proof (intro conjI impI)
  show "distinct (map user_msg (process_chunks_parallel cs))"
    by (rule process_chunks_distinct)
  assume a: "generate_qa_from_chunk o1 = Inr [q1] \<and> generate_qa_from_chunk o2 = Inr [q2] \<and>
    user_msg q1 = user_msg q2"
  then have ne: "user_msg q1 \<noteq> []"
    using generated_user_msg [of o1 "[q1]" q1] by simp
  from a have "concat (map payload [(i, o1), (j, o2)]) = [q1, q2]"
    by (simp add: payload_def)
  then show "process_chunks_parallel [(i, o1), (j, o2)] = [q1]"
    using a ne by (simp add: process_chunks_parallel_payloads add_qa_def)
qed

theorem dedup_by_normalized_question_witness:
  "generate_qa_from_chunk (Content (''Q: What?'' @ [newline] @ ''A: yes'')) =
     Inr [make_qa ''What?'' ''yes''] \<and>
   generate_qa_from_chunk (Content (''Q:  WHAT? '' @ [newline] @ ''A: no'')) =
     Inr [make_qa ''WHAT?'' ''no''] \<and>
   user_msg (make_qa ''What?'' ''yes'') = ''what?'' \<and>
   user_msg (make_qa ''WHAT?'' ''no'') = ''what?'' \<and>
   process_chunks_parallel
     [(0, Content (''Q: What?'' @ [newline] @ ''A: yes'')),
      (1, Content (''Q:  WHAT? '' @ [newline] @ ''A: no''))] = [make_qa ''What?'' ''yes''] \<and>
   process_chunks_parallel
     [(1, Content (''Q:  WHAT? '' @ [newline] @ ''A: no'')),
      (0, Content (''Q: What?'' @ [newline] @ ''A: yes''))] = [make_qa ''WHAT?'' ''no'']"
proof -
  let ?o1 = "Content (''Q: What?'' @ [newline] @ ''A: yes'')"
  let ?o2 = "Content (''Q:  WHAT? '' @ [newline] @ ''A: no'')"
  have g1: "generate_qa_from_chunk ?o1 = Inr [make_qa ''What?'' ''yes'']" by code_simp
  have g2: "generate_qa_from_chunk ?o2 = Inr [make_qa ''WHAT?'' ''no'']" by code_simp
  have u1: "user_msg (make_qa ''What?'' ''yes'') = ''what?''" by code_simp
  have u2: "user_msg (make_qa ''WHAT?'' ''no'') = ''what?''" by code_simp
  have p1: "process_chunks_parallel [(0, ?o1), (1, ?o2)] = [make_qa ''What?'' ''yes'']"
    using dedup_by_normalized_question [of "[]" ?o1 "make_qa ''What?'' ''yes''" ?o2
        "make_qa ''WHAT?'' ''no''" 0 1] g1 g2 u1 u2
    by simp
  have p2: "process_chunks_parallel [(1, ?o2), (0, ?o1)] = [make_qa ''WHAT?'' ''no'']"
    using dedup_by_normalized_question [of "[]" ?o2 "make_qa ''WHAT?'' ''no''" ?o1
        "make_qa ''What?'' ''yes''" 1 0] g1 g2 u1 u2
    by simp
  from g1 g2 u1 u2 p1 p2 show ?thesis by (intro conjI)
qed


section \<open>The two pipelines\<close>


lemma main_no_text:
  "py_strip (gather_text raws) = [] \<Longrightarrow> main raws executor = Some NoTextFound"
  by (simp add: main_def)


lemma run_pipeline_reduce:
  "run_pipeline (Some text) split_text executor llm =
     (case llm (merge_input (fst (summarize_chunks_parallel (executor (split_text text))))) of
        InvokeError \<Rightarrow>
          \<lparr>reduce_calls = [merge_input (fst (summarize_chunks_parallel (executor (split_text text))))],
           saved_summary = None, raised = Some InvokeFailure\<rparr>
      | Reply final_summary \<Rightarrow>
          \<lparr>reduce_calls = [merge_input (fst (summarize_chunks_parallel (executor (split_text text))))],
           saved_summary = Some final_summary, raised = None\<rparr>)"
  by (simp add: run_pipeline_def Let_def)








text \<open>
  Claim C9. Segmenting a text without tokens gives the empty list, and the QA run on an
  empty input returns early, before segmenting and before any generation call. The
  summary run has no such check: on an empty input file it goes on to the reduce call.
\<close>

theorem empty_input_handling:
  "(py_split text = [] \<longrightarrow> chunk_text_with_overlap text C V = Some []) \<and>
   (py_strip (gather_text raws) = [] \<longrightarrow> main raws executor = Some NoTextFound) \<and>
   reduce_calls (run_pipeline (Some []) split_text invoker llm) =
     [merge_input (fst (summarize_chunks_parallel (invoker (split_text []))))]"
proof (intro conjI impI)
  show "chunk_text_with_overlap text C V = Some []" if "py_split text = []"
    using that by (rule chunk_text_no_tokens)
  show "main raws executor = Some NoTextFound" if "py_strip (gather_text raws) = []"
    using that by (rule main_no_text)
  show "reduce_calls (run_pipeline (Some []) split_text invoker llm) =
     [merge_input (fst (summarize_chunks_parallel (invoker (split_text []))))]"
    by (simp add: run_pipeline_reduce split: invoke_outcome.split)
qed

theorem empty_input_handling_witness:
  "py_split '' '' = [] \<and> chunk_text_with_overlap '' '' 300 50 = Some [] \<and>
   py_strip (gather_text [[], '' '']) = [] \<and>
   main [[], '' ''] example_executor = Some NoTextFound \<and>
   reduce_calls (run_pipeline (Some []) whole_text_splitter failing_invoker fixed_llm) = [[]] \<and>
   run_pipeline (Some []) whole_text_splitter failing_invoker fixed_llm =
     \<lparr>reduce_calls = [[]], saved_summary = Some ''final'', raised = None\<rparr>"
proof -
  note inst = empty_input_handling [of "'' ''" 300 50 "[[], '' '']" example_executor
      whole_text_splitter failing_invoker fixed_llm]
  have s: "py_split '' '' = []" by code_simp
  have g: "py_strip (gather_text [[], '' '']) = []" by code_simp
  have m: "merge_input (fst (summarize_chunks_parallel
      (failing_invoker (whole_text_splitter [])))) = []" by code_simp
  have r: "run_pipeline (Some []) whole_text_splitter failing_invoker fixed_llm =
     \<lparr>reduce_calls = [[]], saved_summary = Some ''final'', raised = None\<rparr>" by code_simp
  from inst s g m r show ?thesis by simp
qed



end
